theory Spec2Isabelle
  imports Complex_Main "HOL-Library.Char_ord" "HOL-Library.List_Lexorder"
    "HOL-Library.Product_Lexorder" "HOL-Library.Sublist" "HOL-Library.Multiset"
begin

section \<open>Data model of dash.py\<close>

text \<open>
  The data frame returned by \<open>load_data\<close> has four columns, renamed on load to
  \<open>Expense Type (Category)\<close>, \<open>Expense Area (User/BU)\<close>, \<open>Supplier\<close> and
  \<open>Invoice Value (GBP)\<close>.  A row is a record of three labels and an amount; a frame is
  the list of its rows in file order.

  The supplier is not filtered on, so a row with a blank supplier cell (NaN after
  \<open>read_excel\<close>) reaches every stage: the supplier is optional, \<open>None\<close> for a blank cell.
  A row with a blank category or area passes the filter only when the blank is itself
  among the selected options, which the script leaves to the widgets; such rows are not
  modelled and category and area are strings.  Amounts are exact reals, of either sign
  (the script checks none): rounding of 64-bit floats is not modelled, the non-finite
  results of a division by zero are (type \<open>float64\<close> below).
\<close>

record spend_record =
  category :: string
  area :: string
  supplier :: "string option"
  invoice_value :: real

type_synonym dataframe = "spend_record list"

text \<open>A pandas Series with an index: the list of (label, value) pairs in index order.\<close>

type_synonym ('k, 'v) series = "('k \<times> 'v) list"

definition column_names :: "string list" where
  "column_names =
     [''Expense Type (Category)'', ''Expense Area (User/BU)'', ''Supplier'', ''Invoice Value (GBP)'']"

text \<open>The key column of a \<open>groupby\<close>: the cell of the row, \<open>None\<close> when it is blank.\<close>

definition by_category :: "spend_record \<Rightarrow> string option" where
  "by_category r = Some (category r)"

definition by_area :: "spend_record \<Rightarrow> string option" where
  "by_area r = Some (area r)"

definition by_supplier :: "spend_record \<Rightarrow> string option" where
  "by_supplier r = supplier r"

section \<open>Results of float division\<close>

text \<open>
  numpy division does not raise on a zero divisor: it yields an infinity or NaN.  The
  finite values are kept exact; signed zeros are not distinguished.
\<close>

datatype float64 = Fin real | PInf | NInf | NaN

fun fdiv :: "float64 \<Rightarrow> float64 \<Rightarrow> float64" where
  "fdiv (Fin a) (Fin b) =
     (if b \<noteq> 0 then Fin (a / b) else if 0 < a then PInf else if a < 0 then NInf else NaN)"
| "fdiv (Fin a) PInf = Fin 0"
| "fdiv (Fin a) NInf = Fin 0"
| "fdiv PInf (Fin b) = (if 0 \<le> b then PInf else NInf)"
| "fdiv NInf (Fin b) = (if 0 \<le> b then NInf else PInf)"
| "fdiv _ _ = NaN"

text \<open>Multiplication by a finite constant (the \<open>* 100\<close> of the source).\<close>

fun fscale :: "float64 \<Rightarrow> real \<Rightarrow> float64" where
  "fscale (Fin a) c = Fin (a * c)"
| "fscale PInf c = (if 0 < c then PInf else if c < 0 then NInf else NaN)"
| "fscale NInf c = (if 0 < c then NInf else if c < 0 then PInf else NaN)"
| "fscale NaN c = NaN"

text \<open>\<open>x ** 2\<close>.\<close>

fun fsquare :: "float64 \<Rightarrow> float64" where
  "fsquare (Fin a) = Fin (a * a)"
| "fsquare PInf = PInf"
| "fsquare NInf = PInf"
| "fsquare NaN = NaN"

fun fadd :: "float64 \<Rightarrow> float64 \<Rightarrow> float64" where
  "fadd (Fin a) (Fin b) = Fin (a + b)"
| "fadd NaN _ = NaN"
| "fadd _ NaN = NaN"
| "fadd PInf NInf = NaN"
| "fadd NInf PInf = NaN"
| "fadd PInf _ = PInf"
| "fadd _ PInf = PInf"
| "fadd NInf _ = NInf"
| "fadd _ NInf = NInf"

text \<open>\<open>Series.sum()\<close> with its default \<open>skipna=True\<close>: NaN entries are left out.\<close>

definition fsum :: "float64 list \<Rightarrow> float64" where
  "fsum xs = foldl fadd (Fin 0) (filter (\<lambda>x. x \<noteq> NaN) xs)"

text \<open>\<open>x < c\<close> for a finite constant \<open>c\<close>: every comparison with NaN is false.\<close>

fun flt :: "float64 \<Rightarrow> real \<Rightarrow> bool" where
  "flt (Fin a) c = (a < c)"
| "flt NInf c = True"
| "flt PInf c = False"
| "flt NaN c = False"

text \<open>\<open>Series.max()\<close> of a series of finite values; NaN on an empty series.\<close>

fun series_max :: "real list \<Rightarrow> float64" where
  "series_max [] = NaN"
| "series_max (x # xs) = Fin (foldl max x xs)"

section \<open>Filtering (lines 122 to 125)\<close>

text \<open>\<open>Series.isin(values)\<close>: the boolean mask of the column.\<close>

definition isin :: "string list \<Rightarrow> string list \<Rightarrow> bool list" where
  "isin col vals = map (\<lambda>x. x \<in> set vals) col"

text \<open>\<open>mask1 & mask2\<close>, elementwise.\<close>

definition mask_and :: "bool list \<Rightarrow> bool list \<Rightarrow> bool list" where
  "mask_and m1 m2 = map (\<lambda>(a, b). a \<and> b) (zip m1 m2)"

text \<open>\<open>df[mask]\<close>: a new frame holding the rows whose mask entry is true, in frame order.\<close>

definition boolean_index :: "'a list \<Rightarrow> bool list \<Rightarrow> 'a list" where
  "boolean_index df msk = map fst (filter snd (zip df msk))"

definition filtered_df :: "dataframe \<Rightarrow> string list \<Rightarrow> string list \<Rightarrow> dataframe" where
  "filtered_df df selected_categories selected_areas =
     boolean_index df
       (mask_and (isin (map category df) selected_categories)
                 (isin (map area df) selected_areas))"

text \<open>\<open>Series.unique()\<close>: the distinct values in order of first appearance.\<close>

fun unique_from :: "'a list \<Rightarrow> 'a list \<Rightarrow> 'a list" where
  "unique_from seen [] = []"
| "unique_from seen (x # xs) =
     (if x \<in> set seen then unique_from seen xs else x # unique_from (x # seen) xs)"

definition unique :: "'a list \<Rightarrow> 'a list" where
  "unique xs = unique_from [] xs"

section \<open>Sorting\<close>

text \<open>
  \<open>numpy.argsort\<close>: the positions of the values in ascending order of value.  The
  sorts of the script use the default \<open>kind='quicksort'\<close>, which fixes no order among
  equal values, so the argsort is a parameter of every function that sorts with it; all
  that is known of it is \<open>argsort_ok\<close>: the result is a permutation of the positions
  that puts the values in ascending order.
\<close>

type_synonym argsort = "real list \<Rightarrow> nat list"

definition argsort_ok :: "argsort \<Rightarrow> bool" where
  "argsort_ok q =
     (\<forall>vals. distinct (q vals) \<and> set (q vals) = {..<length vals}
             \<and> sorted (map (\<lambda>i. vals ! i) (q vals)))"

text \<open>\<open>kind='mergesort'\<close>, a stable argsort: equal values stay in position order.\<close>

definition stable_argsort :: argsort where
  "stable_argsort vals = map snd (sort_key fst (zip vals [0..<length vals]))"

text \<open>
  pandas' \<open>nargsort\<close> with \<open>ascending=False\<close>: the values are reversed, sorted in
  ascending order, the positions are mapped back, and the result is reversed.
\<close>

definition nargsort_desc :: "argsort \<Rightarrow> real list \<Rightarrow> nat list" where
  "nargsort_desc q vals = rev (map (\<lambda>i. length vals - 1 - i) (q (rev vals)))"

text \<open>\<open>Series.sort_values(ascending=True)\<close> and \<open>ascending=False\<close>.\<close>

definition sort_values_asc :: "argsort \<Rightarrow> ('k, real) series \<Rightarrow> ('k, real) series" where
  "sort_values_asc q s = map (\<lambda>i. s ! i) (q (map snd s))"

definition sort_values_desc :: "argsort \<Rightarrow> ('k, real) series \<Rightarrow> ('k, real) series" where
  "sort_values_desc q s = map (\<lambda>i. s ! i) (nargsort_desc q (map snd s))"

section \<open>Aggregation\<close>

text \<open>\<open>dropna\<close>: the cells that are not blank, in order.\<close>

fun dropna :: "'a option list \<Rightarrow> 'a list" where
  "dropna [] = []"
| "dropna (None # xs) = dropna xs"
| "dropna (Some x # xs) = x # dropna xs"

text \<open>\<open>Series.nunique()\<close>: the number of distinct values, blank cells not counted.\<close>

definition nunique :: "'a option list \<Rightarrow> nat" where
  "nunique xs = length (unique (dropna xs))"

text \<open>
  \<open>df.groupby(key)['Invoice Value (GBP)'].sum()\<close> with the default \<open>dropna=True\<close>: the
  rows whose key cell is blank are left out, the others are split by key, each group is
  summed, and the result is indexed by the group keys in sorted order.
\<close>

definition group_keys :: "(spend_record \<Rightarrow> string option) \<Rightarrow> dataframe \<Rightarrow> string list" where
  "group_keys key df = sort (unique (dropna (map key df)))"

definition group_rows ::
  "(spend_record \<Rightarrow> string option) \<Rightarrow> dataframe \<Rightarrow> string \<Rightarrow> dataframe" where
  "group_rows key df k = filter (\<lambda>r. key r = Some k) df"

definition groupby_sum ::
  "(spend_record \<Rightarrow> string option) \<Rightarrow> dataframe \<Rightarrow> (string, real) series" where
  "groupby_sum key df =
     map (\<lambda>k. (k, sum_list (map invoice_value (group_rows key df k)))) (group_keys key df)"

text \<open>
  \<open>Series.nlargest(n)\<close> with the default \<open>keep='first'\<close>.  For \<open>n = 0\<close> the result is
  empty.  When \<open>n\<close> is at least the length of the series the result is
  \<open>sort_values(ascending=False).head(n)\<close>, with the tie order of that sort.  Otherwise
  the values are negated, sorted by a stable merge sort, and the first \<open>n\<close> are kept, so
  that equal totals stay in index order.  The count \<open>n\<close> is a natural number: the script
  passes 15, 10, 5 and the values of two sliders that range over 5 to 15.
\<close>

definition nlargest :: "argsort \<Rightarrow> nat \<Rightarrow> ('k, real) series \<Rightarrow> ('k, real) series" where
  "nlargest q n s =
     (if n = 0 then []
      else if length s \<le> n then take n (sort_values_desc q s)
      else take n (sort_key (\<lambda>kv. - snd kv) s))"

section \<open>Market concentration (lines 233 to 249)\<close>

definition supplier_spend :: "dataframe \<Rightarrow> (string, real) series" where
  "supplier_spend view = groupby_sum by_supplier view"

definition market_shares :: "dataframe \<Rightarrow> (string, float64) series" where
  "market_shares view =
     (let total = sum_list (map snd (supplier_spend view))
      in map (\<lambda>(k, v). (k, fscale (fdiv (Fin v) (Fin total)) 100)) (supplier_spend view))"

definition hhi :: "dataframe \<Rightarrow> float64" where
  "hhi view = fsum (map (\<lambda>(k, s). fsquare s) (market_shares view))"

datatype hhi_status = Competitive_Market | Moderately_Concentrated | Highly_Concentrated

definition hhi_interpretation :: "float64 \<Rightarrow> hhi_status" where
  "hhi_interpretation h =
     (if flt h 1500 then Competitive_Market
      else if flt h 2500 then Moderately_Concentrated
      else Highly_Concentrated)"

section \<open>Heatmap pivot (lines 328 to 334)\<close>

text \<open>
  \<open>pivot_table(values, index, columns, aggfunc='sum', fill_value=0)\<close>: the rows are
  grouped by the pair (category, area) and summed; the result is laid out with the sorted
  categories as index and the sorted areas as columns, and a cell with no group is filled
  with \<open>fill_value\<close>.
\<close>

definition pair_sums :: "dataframe \<Rightarrow> ((string \<times> string) \<times> real) list" where
  "pair_sums view =
     map (\<lambda>p. (p, sum_list (map invoice_value
                   (filter (\<lambda>r. (category r, area r) = p) view))))
         (sort (unique (map (\<lambda>r. (category r, area r)) view)))"

record pivot =
  pivot_index :: "string list"
  pivot_columns :: "string list"
  pivot_values :: "real list list"

definition pivot_table :: "dataframe \<Rightarrow> real \<Rightarrow> pivot" where
  "pivot_table view fill_value =
     \<lparr> pivot_index = group_keys by_category view,
       pivot_columns = group_keys by_area view,
       pivot_values =
         map (\<lambda>c. map (\<lambda>a. case map_of (pair_sums view) (c, a) of
                               None \<Rightarrow> fill_value
                             | Some v \<Rightarrow> v)
                        (group_keys by_area view))
             (group_keys by_category view) \<rparr>"

definition heatmap_data :: "dataframe \<Rightarrow> pivot" where
  "heatmap_data view = pivot_table view 0"

section \<open>Detail table and download (lines 376 to 391)\<close>

text \<open>\<open>filtered_df.sort_values('Invoice Value (GBP)', ascending=False)\<close>, shown on screen.\<close>

definition detail_table :: "argsort \<Rightarrow> dataframe \<Rightarrow> dataframe" where
  "detail_table q view = map (\<lambda>i. view ! i) (nargsort_desc q (map invoice_value view))"

text \<open>
  \<open>to_csv(index=False)\<close>: a header line of the column names and one line per row of the
  frame, without the index.  A line is the list of its fields; a label is a text field,
  empty for a blank cell, and an amount is a numeric field, which the writer never quotes.
  The decimal text of an amount is not modelled: a numeric field is the number it denotes.
\<close>

datatype csv_field = Text_Field string | Numeric_Field real

definition csv_header :: "csv_field list" where
  "csv_header = map Text_Field column_names"

definition csv_row :: "spend_record \<Rightarrow> csv_field list" where
  "csv_row r =
     [Text_Field (category r), Text_Field (area r),
      Text_Field (case supplier r of None \<Rightarrow> [] | Some s \<Rightarrow> s),
      Numeric_Field (invoice_value r)]"

definition to_csv :: "dataframe \<Rightarrow> csv_field list list" where
  "to_csv frame = csv_header # map csv_row frame"

text \<open>The numeric fields of the data lines of a CSV text, in reading order.\<close>

definition numeric_fields :: "csv_field list list \<Rightarrow> real list" where
  "numeric_fields csv_lines = [v. line \<leftarrow> tl csv_lines, Numeric_Field v \<leftarrow> line]"

section \<open>The script from the filter to the download\<close>

datatype error = No_Matching_Data

record report =
  total_spend :: real
  unique_suppliers :: nat
  avg_invoice :: float64
  top_supplier_share :: float64
  category_spend :: "(string, real) series"
  top_suppliers :: "(string, real) series"
  hhi_score :: float64
  hhi_status_shown :: hhi_status
  area_spend :: "(string, real) series"
  heatmap :: pivot
  table_shown :: dataframe
  csv :: "csv_field list list"

text \<open>
  Lines 122 to 391.  When the filtered frame has no rows the script shows the error and
  calls \<open>st.stop()\<close>: nothing after line 130 runs.  Otherwise every stage runs.
\<close>

definition dashboard ::
  "argsort \<Rightarrow> dataframe \<Rightarrow> string list \<Rightarrow> string list \<Rightarrow> error + report" where
  "dashboard q df selected_categories selected_areas =
     (let view = filtered_df df selected_categories selected_areas in
      if length view = 0 then Inl No_Matching_Data
      else
        let total = sum_list (map invoice_value view) in
        Inr \<lparr> total_spend = total,
              unique_suppliers = nunique (map supplier view),
              avg_invoice = fdiv (Fin total) (Fin (real (length view))),
              top_supplier_share =
                fscale (fdiv (series_max (map snd (groupby_sum by_supplier view))) (Fin total)) 100,
              category_spend = sort_values_asc q (groupby_sum by_category view),
              top_suppliers = nlargest q 15 (groupby_sum by_supplier view),
              hhi_score = hhi view,
              hhi_status_shown = hhi_interpretation (hhi view),
              area_spend = sort_values_desc q (groupby_sum by_area view),
              heatmap = heatmap_data view,
              table_shown = detail_table q view,
              csv = to_csv view \<rparr>)"

section \<open>Example frames\<close>

text \<open>The three-row dataset of the specification's worked example.\<close>

definition example_df :: dataframe where
  "example_df =
     [\<lparr>category = ''CatA'', area = ''AreaX'', supplier = Some ''S1'', invoice_value = 100\<rparr>,
      \<lparr>category = ''CatA'', area = ''AreaY'', supplier = Some ''S2'', invoice_value = 300\<rparr>,
      \<lparr>category = ''CatB'', area = ''AreaX'', supplier = Some ''S1'', invoice_value = 50\<rparr>]"

text \<open>Four suppliers with one invoice of 100 each: every share is 25 per cent.\<close>

definition four_suppliers_df :: dataframe where
  "four_suppliers_df =
     [\<lparr>category = ''CatA'', area = ''AreaX'', supplier = Some ''S1'', invoice_value = 100\<rparr>,
      \<lparr>category = ''CatA'', area = ''AreaX'', supplier = Some ''S2'', invoice_value = 100\<rparr>,
      \<lparr>category = ''CatA'', area = ''AreaX'', supplier = Some ''S3'', invoice_value = 100\<rparr>,
      \<lparr>category = ''CatA'', area = ''AreaX'', supplier = Some ''S4'', invoice_value = 100\<rparr>]"

text \<open>One invoice of value zero.\<close>

definition zero_invoice_df :: dataframe where
  "zero_invoice_df =
     [\<lparr>category = ''CatA'', area = ''AreaX'', supplier = Some ''S1'', invoice_value = 0\<rparr>]"

text \<open>An invoice with a supplier and an invoice whose supplier cell is blank.\<close>

definition blank_supplier_df :: dataframe where
  "blank_supplier_df =
     [\<lparr>category = ''CatA'', area = ''AreaX'', supplier = Some ''S1'', invoice_value = 100\<rparr>,
      \<lparr>category = ''CatA'', area = ''AreaX'', supplier = None, invoice_value = 50\<rparr>]"



text \<open>
  An argsort that is not stable: among equal values the later position comes first.
\<close>

definition reversing_argsort :: argsort where
  "reversing_argsort vals = map snd (sort_key fst (rev (zip vals [0..<length vals])))"

section \<open>Facts about filtering\<close>

lemma boolean_index_filter:
  "boolean_index df (mask_and (map p df) (map q df)) = filter (\<lambda>r. p r \<and> q r) df"
  by (induction df) (simp_all add: boolean_index_def mask_and_def)

lemma filtered_df_filter:
  "filtered_df df cs as = filter (\<lambda>r. category r \<in> set cs \<and> area r \<in> set as) df"
  unfolding filtered_df_def isin_def map_map comp_def
  by (rule boolean_index_filter)

lemma set_unique_from: "set (unique_from seen xs) = set xs - set seen"
  by (induction xs arbitrary: seen) auto

lemma distinct_unique_from: "distinct (unique_from seen xs)"
  by (induction xs arbitrary: seen) (auto simp: set_unique_from)

lemma set_unique [simp]: "set (unique xs) = set xs"
  by (simp add: unique_def set_unique_from)

lemma distinct_unique [simp]: "distinct (unique xs)"
  by (simp add: unique_def distinct_unique_from)

lemma dashboard_no_rows:
  "filtered_df df cs as = [] \<Longrightarrow> dashboard q df cs as = Inl No_Matching_Data"
  by (simp add: dashboard_def)

text \<open>
  C4.  The filter returns exactly the rows of the dataset whose category is among the
  selected categories and whose area is among the selected areas, in dataset order (a
  subsequence of the dataset); it is a function of its arguments and builds a new
  frame, so the dataset is left as it was.  With no category selected, or no area
  selected, the result is the empty frame, and the script then reports the no-data
  condition instead of failing.
\<close>

theorem filtered_df_subsequence:
  "filtered_df df cs as = filter (\<lambda>r. category r \<in> set cs \<and> area r \<in> set as) df
   \<and> subseq (filtered_df df cs as) df
   \<and> filtered_df df [] as = []
   \<and> filtered_df df cs [] = []
   \<and> dashboard q df [] as = Inl No_Matching_Data
   \<and> dashboard q df cs [] = Inl No_Matching_Data"
proof -
  have e1: "filtered_df df [] as = []" and e2: "filtered_df df cs [] = []"
    by (simp_all add: filtered_df_filter)
  show ?thesis
    using e1 e2 by (simp add: dashboard_no_rows) (simp add: filtered_df_filter)
qed

theorem filtered_df_subsequence_witness:
  "filtered_df example_df [''CatA''] [''AreaX'', ''AreaY'']
     = [\<lparr>category = ''CatA'', area = ''AreaX'', supplier = Some ''S1'', invoice_value = 100\<rparr>,
        \<lparr>category = ''CatA'', area = ''AreaY'', supplier = Some ''S2'', invoice_value = 300\<rparr>]
   \<and> dashboard stable_argsort example_df [] [''AreaX'', ''AreaY''] = Inl No_Matching_Data"
  using filtered_df_subsequence [of example_df "[''CatA'']" "[''AreaX'', ''AreaY'']"]
  by (simp add: example_df_def)

text \<open>
  C10.  Selecting every distinct category of the dataset and every distinct area of the
  dataset (the defaults of the two "Select All" controls) returns the whole dataset:
  the same rows in the same order.
\<close>

theorem filtered_df_select_all:
  "filtered_df df (unique (map category df)) (unique (map area df)) = df"
  by (simp add: filtered_df_filter)

theorem filtered_df_select_all_witness:
  "unique (map category example_df) = [''CatA'', ''CatB'']
   \<and> unique (map area example_df) = [''AreaX'', ''AreaY'']
   \<and> filtered_df example_df [''CatA'', ''CatB''] [''AreaX'', ''AreaY''] = example_df"
proof -
  have c: "unique (map category example_df) = [''CatA'', ''CatB'']"
    by (simp add: example_df_def unique_def)
  have a: "unique (map area example_df) = [''AreaX'', ''AreaY'']"
    by (simp add: example_df_def unique_def)
  show ?thesis using filtered_df_select_all [of example_df] c a by simp
qed

section \<open>Facts about sorting\<close>

lemma mset_map_nth_perm:
  assumes "distinct idx" and "set idx = {..<length xs}"
  shows "mset (map (\<lambda>i. xs ! i) idx) = mset xs"
proof -
  have "set idx = set [0..<length xs]" using assms(2) by (simp add: atLeast0LessThan)
  then have m: "mset idx = mset [0..<length xs]"
    using set_eq_iff_mset_eq_distinct [OF assms(1) distinct_upt] by blast
  have "mset (map (\<lambda>i. xs ! i) idx) = image_mset (\<lambda>i. xs ! i) (mset idx)" by simp
  also have "\<dots> = image_mset (\<lambda>i. xs ! i) (mset [0..<length xs])" by (simp only: m)
  also have "\<dots> = mset (map (\<lambda>i. xs ! i) [0..<length xs])" by simp
  also have "\<dots> = mset xs" by (simp only: map_nth)
  finally show ?thesis .
qed

lemma argsort_okD:
  assumes "argsort_ok q"
  shows "distinct (q vals)" and "set (q vals) = {..<length vals}"
    and "sorted (map (\<lambda>i. vals ! i) (q vals))"
  using assms by (simp_all add: argsort_ok_def)

lemma nargsort_desc_perm:
  assumes "argsort_ok q"
  shows "distinct (nargsort_desc q vals)" and "set (nargsort_desc q vals) = {..<length vals}"
proof -
  let ?n = "length vals"
  let ?p = "q (rev vals)"
  have d: "distinct ?p" and s: "set ?p = {..<?n}"
    using argsort_okD(1,2) [OF assms, of "rev vals"] by simp_all
  have inj: "inj_on (\<lambda>i. ?n - 1 - i) (set ?p)"
    unfolding s by (rule inj_onI) auto
  show "distinct (nargsort_desc q vals)"
    using d inj by (simp add: nargsort_desc_def distinct_map)
  have "(\<lambda>i. ?n - 1 - i) ` {..<?n} = {..<?n}"
  proof (rule set_eqI)
    fix j
    show "j \<in> (\<lambda>i. ?n - 1 - i) ` {..<?n} \<longleftrightarrow> j \<in> {..<?n}"
    proof
      assume "j \<in> (\<lambda>i. ?n - 1 - i) ` {..<?n}"
      then show "j \<in> {..<?n}" by auto
    next
      assume j: "j \<in> {..<?n}"
      then have "j = ?n - 1 - (?n - 1 - j)" and "?n - 1 - j \<in> {..<?n}" by auto
      then show "j \<in> (\<lambda>i. ?n - 1 - i) ` {..<?n}" by (rule image_eqI)
    qed
  qed
  then show "set (nargsort_desc q vals) = {..<length vals}"
    by (simp add: nargsort_desc_def s)
qed

lemma nargsort_desc_sorted:
  assumes "argsort_ok q"
  shows "sorted_wrt (\<lambda>a b. b \<le> a) (map (\<lambda>i. vals ! i) (nargsort_desc q vals))"
proof -
  let ?n = "length vals"
  let ?p = "q (rev vals)"
  have s: "set ?p = {..<?n}" and srt: "sorted (map (\<lambda>i. rev vals ! i) ?p)"
    using argsort_okD(2,3) [OF assms, of "rev vals"] by simp_all
  have eq: "map (\<lambda>i. vals ! (?n - 1 - i)) ?p = map (\<lambda>i. rev vals ! i) ?p"
  proof (rule map_cong [OF refl])
    fix i assume "i \<in> set ?p"
    then have "i < ?n" using s by simp
    then show "vals ! (?n - 1 - i) = rev vals ! i" by (simp add: rev_nth)
  qed
  have "sorted (map (\<lambda>i. vals ! (?n - 1 - i)) ?p)" unfolding eq by (rule srt)
  then have "sorted_wrt (\<lambda>a b. b \<le> a) (rev (map (\<lambda>i. vals ! (?n - 1 - i)) ?p))"
    by (simp only: sorted_wrt_rev)
  moreover have "map (\<lambda>i. vals ! i) (nargsort_desc q vals)
                 = rev (map (\<lambda>i. vals ! (?n - 1 - i)) ?p)"
    by (simp only: nargsort_desc_def rev_map map_map comp_def)
  ultimately show ?thesis by (simp only:)
qed

lemma map_nth_map:
  assumes "set idx \<subseteq> {..<length s}"
  shows "map f (map (\<lambda>i. s ! i) idx) = map (\<lambda>i. map f s ! i) idx"
  using assms by (auto simp: subset_iff)

lemma mset_sort_values_desc:
  assumes "argsort_ok q"
  shows "mset (sort_values_desc q s) = mset s"
  unfolding sort_values_desc_def
  using nargsort_desc_perm [OF assms, of "map snd s"] by (intro mset_map_nth_perm) simp_all

lemma sorted_sort_values_desc:
  assumes "argsort_ok q"
  shows "sorted_wrt (\<lambda>a b. snd b \<le> snd a) (sort_values_desc q s)"
proof -
  let ?idx = "nargsort_desc q (map snd s)"
  have "set ?idx \<subseteq> {..<length s}" using nargsort_desc_perm(2) [OF assms, of "map snd s"] by simp
  then have "map snd (sort_values_desc q s) = map (\<lambda>i. map snd s ! i) ?idx"
    unfolding sort_values_desc_def by (rule map_nth_map)
  then have "sorted_wrt (\<lambda>a b. b \<le> a) (map snd (sort_values_desc q s))"
    using nargsort_desc_sorted [OF assms, of "map snd s"] by simp
  then show ?thesis by (simp add: sorted_wrt_map)
qed

lemma mset_sort_values_asc:
  assumes "argsort_ok q"
  shows "mset (sort_values_asc q s) = mset s"
  unfolding sort_values_asc_def
  using argsort_okD(1,2) [OF assms, of "map snd s"] by (intro mset_map_nth_perm) simp_all

lemma mset_detail_table:
  assumes "argsort_ok q"
  shows "mset (detail_table q view) = mset view"
  unfolding detail_table_def
  using nargsort_desc_perm [OF assms, of "map invoice_value view"]
  by (intro mset_map_nth_perm) simp_all

lemma sorted_detail_table:
  assumes "argsort_ok q"
  shows "sorted_wrt (\<lambda>a b. invoice_value b \<le> invoice_value a) (detail_table q view)"
proof -
  let ?idx = "nargsort_desc q (map invoice_value view)"
  have "set ?idx \<subseteq> {..<length view}"
    using nargsort_desc_perm(2) [OF assms, of "map invoice_value view"] by simp
  then have "map invoice_value (detail_table q view) = map (\<lambda>i. map invoice_value view ! i) ?idx"
    unfolding detail_table_def by (rule map_nth_map)
  then have "sorted_wrt (\<lambda>a b. b \<le> a) (map invoice_value (detail_table q view))"
    using nargsort_desc_sorted [OF assms, of "map invoice_value view"] by simp
  then show ?thesis by (simp add: sorted_wrt_map)
qed

lemma argsort_of_sorted_pairs:
  fixes ps :: "(real \<times> nat) list"
  assumes "mset ps = mset (zip vals [0..<length vals])" and "sorted (map fst ps)"
  shows "distinct (map snd ps)" and "set (map snd ps) = {..<length vals}"
    and "sorted (map (\<lambda>i. vals ! i) (map snd ps))"
proof -
  have m: "mset (map snd ps) = mset [0..<length vals]"
  proof -
    have "mset (map snd ps) = mset (map snd (zip vals [0..<length vals]))"
      using assms(1) by (metis mset_map)
    then show ?thesis by simp
  qed
  show "distinct (map snd ps)"
    using m by (metis distinct_upt mset_eq_imp_distinct_iff)
  have "set (map snd ps) = set [0..<length vals]" using m by (rule mset_eq_setD)
  then show "set (map snd ps) = {..<length vals}" by auto
  have "set ps = set (zip vals [0..<length vals])" using assms(1) by (rule mset_eq_setD)
  then have "\<forall>p\<in>set ps. vals ! snd p = fst p"
    by (auto simp: set_zip)
  then have eq: "map (\<lambda>i. vals ! i) (map snd ps) = map fst ps" by simp
  show "sorted (map (\<lambda>i. vals ! i) (map snd ps))" unfolding eq by (rule assms(2))
qed

lemma argsort_ok_stable: "argsort_ok stable_argsort"
  unfolding argsort_ok_def stable_argsort_def
  using argsort_of_sorted_pairs [of "sort_key fst (zip vals [0..<length vals])" vals for vals]
  by simp

lemma argsort_ok_reversing: "argsort_ok reversing_argsort"
  unfolding argsort_ok_def reversing_argsort_def
  using argsort_of_sorted_pairs [of "sort_key fst (rev (zip vals [0..<length vals]))" vals for vals]
  by simp

section \<open>Facts about aggregation\<close>

lemma dropna_map_Some [simp]: "dropna (map (\<lambda>r. Some (f r)) xs) = map f xs"
  by (induction xs) simp_all

lemma set_dropna [simp]: "set (dropna xs) = {x. Some x \<in> set xs}"
  by (induction xs rule: dropna.induct) auto

lemma set_group_keys [simp]: "set (group_keys key df) = {k. Some k \<in> key ` set df}"
  by (simp add: group_keys_def)

lemma distinct_group_keys [simp]: "distinct (group_keys key df)"
  by (simp add: group_keys_def)

lemma group_keys_by_category: "group_keys by_category df = sort (unique (map category df))"
  by (simp add: group_keys_def by_category_def [abs_def])

lemma group_keys_by_area: "group_keys by_area df = sort (unique (map area df))"
  by (simp add: group_keys_def by_area_def [abs_def])

lemma length_group_keys_category:
  "length (group_keys by_category df) = card (category ` set df)"
proof -
  have "length (sort (unique (map category df))) = card (set (sort (unique (map category df))))"
    by (rule distinct_card [symmetric]) simp
  then show ?thesis by (simp add: group_keys_by_category)
qed

lemma length_group_keys_area:
  "length (group_keys by_area df) = card (area ` set df)"
proof -
  have "length (sort (unique (map area df))) = card (set (sort (unique (map area df))))"
    by (rule distinct_card [symmetric]) simp
  then show ?thesis by (simp add: group_keys_by_area)
qed

lemma sum_list_indicator:
  fixes v :: real
  shows "distinct ks \<Longrightarrow>
         (\<Sum>k\<leftarrow>ks. if k0 = k then v else 0) = (if k0 \<in> set ks then v else 0)"
  by (induction ks) auto

text \<open>Summing every group of a partition by key gives the sum of the whole frame.\<close>

lemma sum_over_groups:
  fixes f :: "'a \<Rightarrow> real"
  assumes "distinct ks" and "key ` set df \<subseteq> set ks"
  shows "(\<Sum>k\<leftarrow>ks. sum_list (map f (filter (\<lambda>r. key r = k) df))) = sum_list (map f df)"
  using assms(2)
proof (induction df)
  case Nil
  show ?case by simp
next
  case (Cons r df)
  have "(\<Sum>k\<leftarrow>ks. sum_list (map f (filter (\<lambda>x. key x = k) (r # df))))
      = (\<Sum>k\<leftarrow>ks. (if key r = k then f r else 0)
                   + sum_list (map f (filter (\<lambda>x. key x = k) df)))"
    by (rule arg_cong [where f = sum_list], rule map_cong) auto
  also have "\<dots> = (\<Sum>k\<leftarrow>ks. if key r = k then f r else 0)
                 + (\<Sum>k\<leftarrow>ks. sum_list (map f (filter (\<lambda>x. key x = k) df)))"
    by (simp add: sum_list_addf)
  also have "\<dots> = f r + sum_list (map f df)"
    using Cons assms(1) by (simp add: sum_list_indicator)
  finally show ?case by simp
qed

text \<open>The group totals cover the rows whose key cell is not blank.\<close>

lemma groupby_sum_total:
  "sum_list (map snd (groupby_sum key df))
     = sum_list (map invoice_value (filter (\<lambda>r. key r \<noteq> None) df))"
proof -
  let ?present = "filter (\<lambda>r. key r \<noteq> None) df"
  let ?ks = "map Some (group_keys key df)"
  have d: "distinct ?ks" by (simp add: distinct_map)
  have c: "key ` set ?present \<subseteq> set ?ks" by force
  have g: "filter (\<lambda>r. key r = Some k) ?present = group_rows key df k" for k
    by (induction df) (auto simp: group_rows_def)
  have "sum_list (map snd (groupby_sum key df))
          = (\<Sum>k\<leftarrow>group_keys key df. sum_list (map invoice_value (group_rows key df k)))"
    by (simp add: groupby_sum_def comp_def)
  also have "\<dots> = (\<Sum>k\<leftarrow>?ks. sum_list (map invoice_value
                                   (filter (\<lambda>r. key r = k) ?present)))"
    by (simp only: map_map comp_def g)
  also have "\<dots> = sum_list (map invoice_value ?present)"
    using d c by (rule sum_over_groups)
  finally show ?thesis .
qed

lemma groupby_sum_total_by_category:
  "sum_list (map snd (groupby_sum by_category df)) = sum_list (map invoice_value df)"
  by (simp add: groupby_sum_total by_category_def)

lemma groupby_sum_total_by_area:
  "sum_list (map snd (groupby_sum by_area df)) = sum_list (map invoice_value df)"
  by (simp add: groupby_sum_total by_area_def)

lemma sum_list_mset_cong:
  fixes g :: "'a \<Rightarrow> real"
  assumes "mset xs = mset ys"
  shows "sum_list (map g xs) = sum_list (map g ys)"
proof -
  have "mset (map g xs) = mset (map g ys)" using assms by (metis mset_map)
  then show ?thesis by (metis sum_mset_sum_list)
qed

text \<open>
  C2, as the script has it.  Over exact arithmetic, for every view: the category totals
  and the area totals each add up to the sum of the invoice values of the view, also in
  the sorted order of the category chart and of the treemap; the supplier totals add up
  to the sum of the invoice values of the rows whose supplier cell is not blank, and so
  to the sum over the view when no supplier cell of the view is blank.
\<close>

theorem group_totals_conserve_sum:
  "sum_list (map snd (groupby_sum by_category view)) = sum_list (map invoice_value view)
   \<and> sum_list (map snd (groupby_sum by_area view)) = sum_list (map invoice_value view)
   \<and> sum_list (map snd (supplier_spend view))
       = sum_list (map invoice_value (filter (\<lambda>r. supplier r \<noteq> None) view))
   \<and> (list_all (\<lambda>r. supplier r \<noteq> None) view \<longrightarrow>
        sum_list (map snd (supplier_spend view)) = sum_list (map invoice_value view))
   \<and> (argsort_ok q \<longrightarrow>
        sum_list (map snd (sort_values_asc q (groupby_sum by_category view)))
          = sum_list (map invoice_value view)
        \<and> sum_list (map snd (sort_values_desc q (groupby_sum by_area view)))
          = sum_list (map invoice_value view))"
proof -
  have s: "sum_list (map snd (supplier_spend view))
             = sum_list (map invoice_value (filter (\<lambda>r. supplier r \<noteq> None) view))"
    by (simp add: supplier_spend_def groupby_sum_total by_supplier_def)
  have f: "filter (\<lambda>r. supplier r \<noteq> None) view = view"
    if "list_all (\<lambda>r. supplier r \<noteq> None) view"
    using that by (simp add: list_all_iff)
  have a: "sum_list (map snd (sort_values_asc q (groupby_sum by_category view)))
             = sum_list (map invoice_value view)" if "argsort_ok q"
    using sum_list_mset_cong
      [OF mset_sort_values_asc [OF that, of "groupby_sum by_category view"], of snd]
    by (simp add: groupby_sum_total_by_category)
  have d: "sum_list (map snd (sort_values_desc q (groupby_sum by_area view)))
             = sum_list (map invoice_value view)" if "argsort_ok q"
    using sum_list_mset_cong
      [OF mset_sort_values_desc [OF that, of "groupby_sum by_area view"], of snd]
    by (simp add: groupby_sum_total_by_area)
  show ?thesis
    using s f a d by (simp add: groupby_sum_total_by_category groupby_sum_total_by_area)
qed

theorem group_totals_conserve_sum_witness:
  "groupby_sum by_category example_df = [(''CatA'', 400), (''CatB'', 50)]
   \<and> groupby_sum by_supplier example_df = [(''S1'', 150), (''S2'', 300)]
   \<and> list_all (\<lambda>r. supplier r \<noteq> None) example_df
   \<and> argsort_ok stable_argsort
   \<and> sum_list (map snd (groupby_sum by_category example_df)) = 450
   \<and> sum_list (map snd (groupby_sum by_area example_df)) = 450
   \<and> sum_list (map snd (supplier_spend example_df)) = 450
   \<and> sum_list (map snd (sort_values_asc stable_argsort (groupby_sum by_category example_df))) = 450"
proof -
  have t: "sum_list (map invoice_value example_df) = 450"
    by (simp add: example_df_def)
  have c: "groupby_sum by_category example_df = [(''CatA'', 400), (''CatB'', 50)]"
    by (simp add: groupby_sum_def group_keys_def group_rows_def unique_def by_category_def
        example_df_def)
  have s: "groupby_sum by_supplier example_df = [(''S1'', 150), (''S2'', 300)]"
    by (simp add: groupby_sum_def group_keys_def group_rows_def unique_def by_supplier_def
        example_df_def)
  have p: "list_all (\<lambda>r. supplier r \<noteq> None) example_df"
    by (simp add: example_df_def)
  show ?thesis
    using group_totals_conserve_sum [of example_df stable_argsort] t c s p argsort_ok_stable
    by simp
qed

text \<open>
  With a blank supplier cell in the view the supplier totals fall short of the total:
  the row is counted in the total spend and left out of every supplier group.
\<close>

theorem blank_supplier_not_in_supplier_totals:
  "filtered_df blank_supplier_df [''CatA''] [''AreaX''] = blank_supplier_df
   \<and> sum_list (map invoice_value blank_supplier_df) = 150
   \<and> supplier_spend blank_supplier_df = [(''S1'', 100)]
   \<and> sum_list (map snd (supplier_spend blank_supplier_df))
       \<noteq> sum_list (map invoice_value blank_supplier_df)"
proof -
  have f: "filtered_df blank_supplier_df [''CatA''] [''AreaX''] = blank_supplier_df"
    by (simp add: filtered_df_filter blank_supplier_df_def)
  have t: "sum_list (map invoice_value blank_supplier_df) = 150"
    by (simp add: blank_supplier_df_def)
  have s: "supplier_spend blank_supplier_df = [(''S1'', 100)]"
    by (simp add: supplier_spend_def groupby_sum_def group_keys_def group_rows_def unique_def
        by_supplier_def blank_supplier_df_def)
  show ?thesis by (simp add: f t s)
qed

section \<open>Facts about the pivot\<close>

lemma map_of_pair_sums:
  "map_of (pair_sums view) p =
     (if p \<in> (\<lambda>r. (category r, area r)) ` set view
      then Some (sum_list (map invoice_value (filter (\<lambda>r. (category r, area r) = p) view)))
      else None)"
  by (simp add: pair_sums_def map_of_map_restrict restrict_map_def)

lemma filter_absent: "p \<notin> f ` set xs \<Longrightarrow> filter (\<lambda>r. f r = p) xs = []"
  by (induction xs) auto

lemma pivot_cell:
  "(case map_of (pair_sums view) (c, a) of None \<Rightarrow> 0 | Some v \<Rightarrow> v)
     = sum_list (map invoice_value (filter (\<lambda>r. category r = c \<and> area r = a) view))"
proof (cases "(c, a) \<in> (\<lambda>r. (category r, area r)) ` set view")
  case True
  then show ?thesis by (simp add: map_of_pair_sums)
next
  case False
  have "filter (\<lambda>r. (category r, area r) = (c, a)) view = []"
    using False by (rule filter_absent)
  then show ?thesis using False by (simp add: map_of_pair_sums)
qed

lemma pivot_values_cells:
  "pivot_values (heatmap_data view) =
     map (\<lambda>c. map (\<lambda>a. sum_list (map invoice_value
                          (filter (\<lambda>r. category r = c \<and> area r = a) view)))
                   (group_keys by_area view))
         (group_keys by_category view)"
  by (simp add: heatmap_data_def pivot_table_def pivot_cell)

lemma pivot_row_sum:
  "(\<Sum>a\<leftarrow>group_keys by_area view.
       sum_list (map invoice_value (filter (\<lambda>r. category r = c \<and> area r = a) view)))
   = sum_list (map invoice_value (filter (\<lambda>r. category r = c) view))"
proof -
  let ?g = "filter (\<lambda>r. category r = c) view"
  have "(\<Sum>a\<leftarrow>group_keys by_area view.
            sum_list (map invoice_value (filter (\<lambda>r. area r = a) ?g)))
        = sum_list (map invoice_value ?g)"
    by (rule sum_over_groups) (auto simp: by_area_def)
  moreover have "\<And>a. filter (\<lambda>r. area r = a) ?g
                     = filter (\<lambda>r. category r = c \<and> area r = a) view"
    by (simp add: conj_commute)
  ultimately show ?thesis by simp
qed

lemma pivot_total:
  "sum_list (map sum_list (pivot_values (heatmap_data view))) = sum_list (map invoice_value view)"
proof -
  have "sum_list (map sum_list (pivot_values (heatmap_data view)))
        = (\<Sum>c\<leftarrow>group_keys by_category view.
             sum_list (map invoice_value (filter (\<lambda>r. category r = c) view)))"
    by (simp add: pivot_values_cells comp_def pivot_row_sum)
  also have "\<dots> = sum_list (map invoice_value view)"
    by (rule sum_over_groups) (auto simp: by_category_def)
  finally show ?thesis .
qed

text \<open>
  C6.  The heatmap pivot has one row per distinct category of the view and one column
  per distinct area of the view, every row is full (the matrix is dense), a cell whose
  category and area never occur together in the view holds exactly 0, and the cells
  add up to the sum of the invoice values of the view.
\<close>

theorem heatmap_dense_total:
  "pivot_index (heatmap_data view) = sort (unique (map category view))
   \<and> pivot_columns (heatmap_data view) = sort (unique (map area view))
   \<and> length (pivot_values (heatmap_data view)) = card (category ` set view)
   \<and> (\<forall>row \<in> set (pivot_values (heatmap_data view)). length row = card (area ` set view))
   \<and> (\<forall>i j. i < length (pivot_index (heatmap_data view))
          \<and> j < length (pivot_columns (heatmap_data view))
          \<and> (pivot_index (heatmap_data view) ! i, pivot_columns (heatmap_data view) ! j)
              \<notin> (\<lambda>r. (category r, area r)) ` set view
        \<longrightarrow> pivot_values (heatmap_data view) ! i ! j = 0)
   \<and> sum_list (map sum_list (pivot_values (heatmap_data view)))
       = sum_list (map invoice_value view)"
proof -
  have idx: "pivot_index (heatmap_data view) = group_keys by_category view"
    and cols: "pivot_columns (heatmap_data view) = group_keys by_area view"
    by (simp_all add: heatmap_data_def pivot_table_def)
  have rows: "length (pivot_values (heatmap_data view)) = card (category ` set view)"
    by (simp add: pivot_values_cells length_group_keys_category)
  have width: "\<forall>row \<in> set (pivot_values (heatmap_data view)). length row = card (area ` set view)"
    by (auto simp: pivot_values_cells length_group_keys_area)
  have fill: "pivot_values (heatmap_data view) ! i ! j = 0"
    if "i < length (group_keys by_category view)" "j < length (group_keys by_area view)"
       "(group_keys by_category view ! i, group_keys by_area view ! j)
          \<notin> (\<lambda>r. (category r, area r)) ` set view" for i j
  proof -
    have "filter (\<lambda>r. (category r, area r)
                       = (group_keys by_category view ! i, group_keys by_area view ! j)) view = []"
      using that(3) by (rule filter_absent)
    then show ?thesis using that(1,2) by (simp add: pivot_values_cells)
  qed
  show ?thesis
    using rows width fill pivot_total [of view]
    by (simp add: idx cols group_keys_by_category [symmetric] group_keys_by_area [symmetric])
qed

theorem heatmap_dense_total_witness:
  "heatmap_data example_df =
     \<lparr>pivot_index = [''CatA'', ''CatB''], pivot_columns = [''AreaX'', ''AreaY''],
      pivot_values = [[100, 300], [50, 0]]\<rparr>
   \<and> sum_list (map sum_list (pivot_values (heatmap_data example_df))) = 450"
proof -
  have h: "heatmap_data example_df =
     \<lparr>pivot_index = [''CatA'', ''CatB''], pivot_columns = [''AreaX'', ''AreaY''],
      pivot_values = [[100, 300], [50, 0]]\<rparr>"
    by (simp add: heatmap_data_def pivot_table_def pair_sums_def group_keys_by_category
        group_keys_by_area unique_def example_df_def)
  have t: "sum_list (map invoice_value example_df) = 450"
    by (simp add: example_df_def)
  show ?thesis using heatmap_dense_total [of example_df] h t by simp
qed

section \<open>Facts about the concentration index\<close>

lemma foldl_fadd_Fin: "foldl fadd (Fin a) (map Fin xs) = Fin (a + sum_list xs)"
  by (induction xs arbitrary: a) (simp_all add: add.assoc)

lemma fsum_Fin: "fsum (map Fin xs) = Fin (sum_list xs)"
proof -
  have "filter (\<lambda>x. x \<noteq> NaN) (map Fin xs) = map Fin xs"
    by (induction xs) simp_all
  then show ?thesis by (simp add: fsum_def foldl_fadd_Fin)
qed

lemma market_shares_finite:
  assumes "sum_list (map snd (supplier_spend view)) \<noteq> 0"
  shows "market_shares view =
         map (\<lambda>(k, v). (k, Fin (v / sum_list (map snd (supplier_spend view)) * 100)))
             (supplier_spend view)"
  using assms by (simp add: market_shares_def Let_def)

lemma hhi_finite:
  assumes "sum_list (map snd (supplier_spend view)) \<noteq> 0"
  shows "hhi view =
         Fin (\<Sum>v\<leftarrow>map snd (supplier_spend view).
                (v / sum_list (map snd (supplier_spend view)) * 100)\<^sup>2)"
proof -
  let ?T = "sum_list (map snd (supplier_spend view))"
  have "map (\<lambda>(k, s). fsquare s) (market_shares view)
        = map Fin (map (\<lambda>v. (v / ?T * 100)\<^sup>2) (map snd (supplier_spend view)))"
    by (simp add: market_shares_finite [OF assms] comp_def case_prod_unfold power2_eq_square)
  then show ?thesis unfolding hhi_def by (simp only: fsum_Fin)
qed











lemma map_fst_groupby_sum [simp]: "map fst (groupby_sum key df) = group_keys key df"
  by (simp add: groupby_sum_def comp_def)






text \<open>
  The score on a view whose supplier totals do not sum to zero: the sum over the
  suppliers of (100 * supplier total / sum of the supplier totals) squared.
\<close>

lemma hhi_formula:
  assumes "sum_list (map snd (supplier_spend view)) \<noteq> 0"
  shows "hhi view =
         Fin (\<Sum>(k, t)\<leftarrow>supplier_spend view.
                (100 * t / sum_list (map snd (supplier_spend view)))\<^sup>2)"
  using assms by (simp add: hhi_finite comp_def case_prod_unfold mult.commute)

text \<open>The bands as the script tests them, on a finite score.\<close>

lemma hhi_interpretation_Fin:
  "hhi_interpretation (Fin s) =
     (if s < 1500 then Competitive_Market
      else if s < 2500 then Moderately_Concentrated
      else Highly_Concentrated)"
  by (simp add: hhi_interpretation_def)

text \<open>
  C1.  The score is the sum over the suppliers of the squared percentage shares.  On
  four suppliers with equal spend every share is 25 and the score is exactly 2500; the
  explanatory text of the page (lines 209 to 211) puts 2500 in the band "1,500-2,500:
  Moderately concentrated" and only scores above 2,500 in "Highly concentrated", but the
  test on line 242 is \<open>hhi < 2500\<close>, so the script shows "Highly Concentrated".
\<close>

theorem hhi_2500_shown_highly_concentrated:
  "filtered_df four_suppliers_df [''CatA''] [''AreaX''] = four_suppliers_df
   \<and> market_shares four_suppliers_df
       = [(''S1'', Fin 25), (''S2'', Fin 25), (''S3'', Fin 25), (''S4'', Fin 25)]
   \<and> hhi four_suppliers_df = Fin 2500
   \<and> hhi_interpretation (hhi four_suppliers_df) = Highly_Concentrated
   \<and> (case dashboard q four_suppliers_df [''CatA''] [''AreaX''] of
          Inl e \<Rightarrow> None
        | Inr rep \<Rightarrow> Some (hhi_score rep, hhi_status_shown rep))
       = Some (Fin 2500, Highly_Concentrated)"
proof -
  have f: "filtered_df four_suppliers_df [''CatA''] [''AreaX''] = four_suppliers_df"
    by (simp add: filtered_df_filter four_suppliers_df_def)
  have g: "groupby_sum by_supplier four_suppliers_df
             = [(''S1'', 100), (''S2'', 100), (''S3'', 100), (''S4'', 100)]"
    by (simp add: groupby_sum_def group_keys_def group_rows_def unique_def by_supplier_def
        four_suppliers_df_def)
  have m: "market_shares four_suppliers_df
       = [(''S1'', Fin 25), (''S2'', Fin 25), (''S3'', Fin 25), (''S4'', Fin 25)]"
    by (simp add: market_shares_def supplier_spend_def g)
  have h: "hhi four_suppliers_df = Fin 2500"
    by (simp add: hhi_def m fsum_def)
  have i: "hhi_interpretation (hhi four_suppliers_df) = Highly_Concentrated"
    by (simp add: h hhi_interpretation_def)
  have ne: "four_suppliers_df \<noteq> []"
    by (simp add: four_suppliers_df_def)
  have d: "(case dashboard q four_suppliers_df [''CatA''] [''AreaX''] of
          Inl e \<Rightarrow> None
        | Inr rep \<Rightarrow> Some (hhi_score rep, hhi_status_shown rep))
       = Some (Fin 2500, Highly_Concentrated)"
    using ne by (simp add: dashboard_def f Let_def h hhi_interpretation_def)
  show ?thesis using f m h i d by simp
qed

section \<open>The no-data stop\<close>

text \<open>
  C3, as the script has it.  The script signals the no-data condition and stops, before
  any KPI or concentration stage and so before any division by the grand total, exactly
  when the filtered view has no rows.  A view with rows is not stopped, whatever its
  grand total.
\<close>

theorem no_data_iff_no_rows:
  "dashboard q df cs as = Inl No_Matching_Data \<longleftrightarrow> filtered_df df cs as = []"
  by (simp add: dashboard_def Let_def)

theorem no_data_iff_no_rows_witness:
  "filtered_df example_df [''CatC''] [''AreaX''] = []
   \<and> dashboard stable_argsort example_df [''CatC''] [''AreaX''] = Inl No_Matching_Data
   \<and> filtered_df example_df [''CatA'', ''CatB''] [''AreaX'', ''AreaY''] = example_df
   \<and> dashboard stable_argsort example_df [''CatA'', ''CatB''] [''AreaX'', ''AreaY'']
       \<noteq> Inl No_Matching_Data"
proof -
  have e: "filtered_df example_df [''CatC''] [''AreaX''] = []"
    by (simp add: filtered_df_filter example_df_def)
  have n: "filtered_df example_df [''CatA'', ''CatB''] [''AreaX'', ''AreaY''] = example_df"
    by (simp add: filtered_df_filter example_df_def)
  have ne: "example_df \<noteq> []" by (simp add: example_df_def)
  show ?thesis
    using no_data_iff_no_rows [of stable_argsort example_df "[''CatC'']" "[''AreaX'']"]
      no_data_iff_no_rows
        [of stable_argsort example_df "[''CatA'', ''CatB'']" "[''AreaX'', ''AreaY'']"]
      e n ne
    by simp
qed

text \<open>
  A view with rows whose grand total is zero is not stopped: on one invoice of value 0
  the share of the supplier is 0 / 0, the top supplier share shown is NaN, and the HHI,
  a sum that skips NaN, is 0 and is shown as a competitive market.
\<close>

theorem zero_total_view_not_short_circuited:
  "filtered_df zero_invoice_df [''CatA''] [''AreaX''] = zero_invoice_df
   \<and> sum_list (map invoice_value (filtered_df zero_invoice_df [''CatA''] [''AreaX''])) = 0
   \<and> dashboard stable_argsort zero_invoice_df [''CatA''] [''AreaX''] \<noteq> Inl No_Matching_Data
   \<and> market_shares zero_invoice_df = [(''S1'', NaN)]
   \<and> (case dashboard stable_argsort zero_invoice_df [''CatA''] [''AreaX''] of
          Inl e \<Rightarrow> None
        | Inr rep \<Rightarrow> Some (top_supplier_share rep, hhi_score rep, hhi_status_shown rep))
       = Some (NaN, Fin 0, Competitive_Market)"
proof -
  have f: "filtered_df zero_invoice_df [''CatA''] [''AreaX''] = zero_invoice_df"
    by (simp add: filtered_df_filter zero_invoice_df_def)
  have t: "sum_list (map invoice_value zero_invoice_df) = 0"
    by (simp add: zero_invoice_df_def)
  have g: "groupby_sum by_supplier zero_invoice_df = [(''S1'', 0)]"
    by (simp add: groupby_sum_def group_keys_def group_rows_def unique_def by_supplier_def
        zero_invoice_df_def)
  have m: "market_shares zero_invoice_df = [(''S1'', NaN)]"
    by (simp add: market_shares_def supplier_spend_def g)
  have h: "hhi zero_invoice_df = Fin 0"
    by (simp add: hhi_def m fsum_def)
  have ne: "zero_invoice_df \<noteq> []"
    by (simp add: zero_invoice_df_def)
  have d: "(case dashboard stable_argsort zero_invoice_df [''CatA''] [''AreaX''] of
          Inl e \<Rightarrow> None
        | Inr rep \<Rightarrow> Some (top_supplier_share rep, hhi_score rep, hhi_status_shown rep))
       = Some (NaN, Fin 0, Competitive_Market)"
    using ne by (simp add: dashboard_def f Let_def h hhi_interpretation_def g t)
  have nd: "dashboard stable_argsort zero_invoice_df [''CatA''] [''AreaX''] \<noteq> Inl No_Matching_Data"
    using ne by (simp add: dashboard_def f Let_def)
  show ?thesis using f t m d nd by simp
qed

section \<open>Facts about the top-n selection\<close>

lemma sorted_desc_sort_key:
  fixes s :: "('k \<times> real) list"
  shows "sorted_wrt (\<lambda>a b. snd b \<le> snd a) (sort_key (\<lambda>kv. - snd kv) s)"
proof -
  have "sorted (map (\<lambda>kv. - snd kv) (sort_key (\<lambda>kv. - snd kv) s))"
    by (rule sorted_sort_key)
  then show ?thesis by (simp add: sorted_map)
qed

lemma sorted_wrt_strict_if_distinct:
  fixes ys :: "('k \<times> real) list"
  assumes "sorted_wrt (\<lambda>a b. snd b \<le> snd a) ys" "distinct (map snd ys)"
  shows "sorted_wrt (\<lambda>a b. snd b < snd a) ys"
  using assms by (induction ys) (force simp: less_le)+

text \<open>A descending order of given values is unique.\<close>

lemma desc_sorted_values_unique:
  fixes xs ys :: "real list"
  assumes "mset ys = mset xs"
    and "sorted_wrt (\<lambda>a b. b \<le> a) xs" and "sorted_wrt (\<lambda>a b. b \<le> a) ys"
  shows "ys = xs"
proof -
  have sx: "sorted (rev xs)" and sy: "sorted (rev ys)"
    using assms(2,3) by (simp_all add: sorted_wrt_rev)
  have "mset (rev ys) = mset (rev xs)" using assms(1) by simp
  then have "sort (rev xs) = rev ys" using sy by (rule properties_for_sort)
  moreover have "sort (rev xs) = rev xs" using sx by (rule sorted_sort_id)
  ultimately show ?thesis by simp
qed

text \<open>With pairwise distinct totals there is one descending order of the entries.\<close>

lemma filter_same_key:
  assumes "distinct (map f xs)" and "k \<in> set xs"
  shows "filter (\<lambda>x. f k = f x) xs = [k]"
  using assms
proof (induction xs)
  case Nil
  then show ?case by simp
next
  case (Cons x xs)
  show ?case
  proof (cases "k = x")
    case True
    have "filter (\<lambda>y. f x = f y) xs = []"
      using Cons.prems(1) by (auto simp: filter_empty_conv)
    then show ?thesis using True by simp
  next
    case False
    then have k: "k \<in> set xs" using Cons.prems(2) by simp
    have "f x \<notin> f ` set xs" using Cons.prems(1) by simp
    moreover have "f k \<in> f ` set xs" using k by (rule imageI)
    ultimately have "f k \<noteq> f x" by metis
    then show ?thesis using Cons.IH k Cons.prems(1) by simp
  qed
qed

lemma desc_sorted_entries_unique:
  fixes xs ys :: "('k \<times> real) list"
  assumes m: "mset ys = mset xs"
    and sx: "sorted_wrt (\<lambda>a b. snd b \<le> snd a) xs"
    and sy: "sorted_wrt (\<lambda>a b. snd b \<le> snd a) ys"
    and d: "distinct (map snd xs)"
  shows "ys = xs"
proof -
  let ?f = "\<lambda>kv::'k \<times> real. - snd kv"
  have dx: "distinct (map ?f xs)"
    using d by (simp add: distinct_map inj_on_def)
  have "mset (map ?f ys) = mset (map ?f xs)" using m by simp
  then have dy: "distinct (map ?f ys)" using dx by (metis mset_eq_imp_distinct_iff)
  have st: "filter (\<lambda>x. ?f k = ?f x) ys = filter (\<lambda>x. ?f k = ?f x) xs" if "k \<in> set ys" for k
  proof -
    have "k \<in> set xs" using that mset_eq_setD [OF m] by simp
    then have "filter (\<lambda>x. ?f k = ?f x) xs = [k]" using dx by (intro filter_same_key)
    moreover have "filter (\<lambda>x. ?f k = ?f x) ys = [k]" using dy that by (intro filter_same_key)
    ultimately show ?thesis by simp
  qed
  have "sorted (map ?f ys)" using sy by (simp add: sorted_map)
  with m st have "sort_key ?f xs = ys" by (rule properties_for_sort_key)
  moreover have "sorted (map ?f xs)" using sx by (simp add: sorted_map)
  then have "sort_key ?f xs = xs" by (rule sort_key_id_if_sorted)
  ultimately show ?thesis by simp
qed

text \<open>The two branches of \<open>nlargest\<close>.\<close>

lemma nlargest_selecting:
  "n < length s \<Longrightarrow> nlargest q n s = take n (sort_key (\<lambda>kv. - snd kv) s)"
  by (simp add: nlargest_def)

lemma nlargest_whole:
  assumes "argsort_ok q" and "length s \<le> n"
  shows "mset (nlargest q n s) = mset s"
    and "sorted_wrt (\<lambda>a b. snd b \<le> snd a) (nlargest q n s)"
proof -
  have len: "length (sort_values_desc q s) = length s"
    using mset_sort_values_desc [OF assms(1), of s] by (rule mset_eq_length)
  have eq: "nlargest q n s = (if n = 0 then [] else sort_values_desc q s)"
    using assms(2) len by (simp add: nlargest_def)
  show "mset (nlargest q n s) = mset s"
    using assms(2) mset_sort_values_desc [OF assms(1), of s] by (auto simp: eq)
  show "sorted_wrt (\<lambda>a b. snd b \<le> snd a) (nlargest q n s)"
    using sorted_sort_values_desc [OF assms(1), of s] by (simp add: eq)
qed

lemma nlargest_length:
  assumes "argsort_ok q"
  shows "length (nlargest q n s) = min n (length s)"
proof (cases "n < length s")
  case True
  then show ?thesis by (simp add: nlargest_selecting)
next
  case False
  then have "length s \<le> n" by simp
  then have "length (nlargest q n s) = length s"
    using nlargest_whole(1) [OF assms] by (intro mset_eq_length)
  then show ?thesis using False by simp
qed

lemma nlargest_sorted:
  assumes "argsort_ok q"
  shows "sorted_wrt (\<lambda>a b. snd b \<le> snd a) (nlargest q n s)"
proof (cases "n < length s")
  case True
  then show ?thesis
    using sorted_desc_sort_key [of s] by (simp add: nlargest_selecting sorted_wrt_take)
next
  case False
  then have "length s \<le> n" by simp
  then show ?thesis by (rule nlargest_whole(2) [OF assms])
qed

lemma nlargest_distinct_totals:
  assumes "argsort_ok q" and "distinct (map snd s)"
  shows "distinct (map snd (nlargest q n s))"
proof (cases "n < length s")
  case True
  have "distinct (map snd (sort_key (\<lambda>kv. - snd kv) s))"
    using assms(2) by (simp add: distinct_map)
  then have "distinct (take n (map snd (sort_key (\<lambda>kv. - snd kv) s)))"
    by (rule distinct_take)
  then show ?thesis using True by (simp add: nlargest_selecting take_map)
next
  case False
  then have "length s \<le> n" by simp
  then have "mset (nlargest q n s) = mset s" by (rule nlargest_whole(1) [OF assms(1)])
  then have "mset (map snd (nlargest q n s)) = mset (map snd s)" by simp
  then show ?thesis using assms(2) by (metis mset_eq_imp_distinct_iff)
qed

text \<open>
  C7, as the script has it.  For every series of sums, every n and every sort that
  pandas may use: \<open>nlargest n\<close> returns exactly min(n, len(sums)) entries of the series,
  and no entry left out has a larger total than an entry returned; the entries are
  ordered by descending totals, not strictly when totals are equal and strictly when the
  totals are pairwise distinct.  When n is less than len(sums), entries with equal totals
  are the first of them in the original key order and stay in that order (stable); when
  n is at least len(sums) their order is the one the sort leaves.  Applying \<open>nlargest n\<close>
  again to the result gives the same sequence of totals, and gives the result itself when
  the totals are pairwise distinct.
\<close>

theorem nlargest_descending_totals:
  fixes s :: "('k \<times> real) list"
  assumes ok: "argsort_ok q"
  shows "length (nlargest q n s) = min n (length s)
   \<and> set (nlargest q n s) \<subseteq> set s
   \<and> (\<forall>b\<in>set s. b \<notin> set (nlargest q n s) \<longrightarrow> (\<forall>a\<in>set (nlargest q n s). snd b \<le> snd a))
   \<and> sorted_wrt (\<lambda>a b. snd b \<le> snd a) (nlargest q n s)
   \<and> (distinct (map snd s) \<longrightarrow> sorted_wrt (\<lambda>a b. snd b < snd a) (nlargest q n s))
   \<and> (n < length s \<longrightarrow>
        (\<forall>v. prefix (filter (\<lambda>kv. snd kv = v) (nlargest q n s)) (filter (\<lambda>kv. snd kv = v) s)))
   \<and> map snd (nlargest q n (nlargest q n s)) = map snd (nlargest q n s)
   \<and> (distinct (map snd s) \<longrightarrow> nlargest q n (nlargest q n s) = nlargest q n s)"
proof -
  let ?f = "\<lambda>kv::'k \<times> real. - snd kv"
  let ?ys = "sort_key ?f s"
  let ?r = "nlargest q n s"
  have len: "length ?r = min n (length s)"
    by (rule nlargest_length [OF ok])
  have desc: "sorted_wrt (\<lambda>a b. snd b \<le> snd a) ?r"
    by (rule nlargest_sorted [OF ok])
  have sub: "set ?r \<subseteq> set s"
  proof (cases "n < length s")
    case True
    then show ?thesis using set_take_subset [of n ?ys] by (simp add: nlargest_selecting)
  next
    case False
    then have "length s \<le> n" by simp
    then have "mset ?r = mset s" by (rule nlargest_whole(1) [OF ok])
    then show ?thesis using mset_eq_setD by blast
  qed
  have largest: "snd b \<le> snd a" if "b \<in> set s" "b \<notin> set ?r" "a \<in> set ?r" for a b
  proof (cases "n < length s")
    case True
    have srt: "sorted_wrt (\<lambda>a b. snd b \<le> snd a) ?ys" by (rule sorted_desc_sort_key)
    have "set ?ys = set (take n ?ys) \<union> set (drop n ?ys)"
      by (metis append_take_drop_id set_append)
    then have b: "b \<in> set (drop n ?ys)"
      using that(1,2) True by (simp add: nlargest_selecting)
    have a: "a \<in> set (take n ?ys)" using that(3) True by (simp add: nlargest_selecting)
    have "sorted_wrt (\<lambda>a b. snd b \<le> snd a) (take n ?ys @ drop n ?ys)"
      using srt by simp
    then show ?thesis
      using a b by (simp only: sorted_wrt_append)
  next
    case False
    then have "length s \<le> n" by simp
    then have "mset ?r = mset s" by (rule nlargest_whole(1) [OF ok])
    then have "set ?r = set s" by (rule mset_eq_setD)
    then show ?thesis using that(1,2) by simp
  qed
  have strict: "sorted_wrt (\<lambda>a b. snd b < snd a) ?r" if d: "distinct (map snd s)"
    using desc nlargest_distinct_totals [OF ok d] by (rule sorted_wrt_strict_if_distinct)
  have stable: "prefix (filter (\<lambda>kv. snd kv = v) ?r) (filter (\<lambda>kv. snd kv = v) s)"
    if "n < length s" for v
  proof -
    have "prefix (filter (\<lambda>kv. ?f kv = - v) (take n ?ys)) (filter (\<lambda>kv. ?f kv = - v) ?ys)"
      by (intro filter_mono_prefix take_is_prefix)
    also have "filter (\<lambda>kv. ?f kv = - v) ?ys = filter (\<lambda>kv. ?f kv = - v) s"
      by (rule sort_key_stable)
    finally show ?thesis using that by (simp add: nlargest_selecting)
  qed
  have again: "length ?r \<le> n" using len by simp
  have m2: "mset (nlargest q n ?r) = mset ?r"
    and s2: "sorted_wrt (\<lambda>a b. snd b \<le> snd a) (nlargest q n ?r)"
    using nlargest_whole [OF ok again] by simp_all
  have totals: "map snd (nlargest q n ?r) = map snd ?r"
  proof (rule desc_sorted_values_unique)
    show "mset (map snd (nlargest q n ?r)) = mset (map snd ?r)" using m2 by simp
    show "sorted_wrt (\<lambda>a b. b \<le> a) (map snd ?r)" using desc by (simp add: sorted_wrt_map)
    show "sorted_wrt (\<lambda>a b. b \<le> a) (map snd (nlargest q n ?r))"
      using s2 by (simp add: sorted_wrt_map)
  qed
  have idem: "nlargest q n ?r = ?r" if d: "distinct (map snd s)"
    using m2 desc s2 nlargest_distinct_totals [OF ok d] by (rule desc_sorted_entries_unique)
  show ?thesis
    using len sub largest desc strict stable totals idem by blast
qed

theorem nlargest_descending_totals_witness:
  "argsort_ok stable_argsort
   \<and> distinct (map snd [(''S1'', 150::real), (''S2'', 300)])
   \<and> nlargest stable_argsort 1 [(''S1'', 150), (''S2'', 300)] = [(''S2'', 300)]
   \<and> length (nlargest stable_argsort 1 [(''S1'', 150::real), (''S2'', 300)]) = min 1 2
   \<and> sorted_wrt (\<lambda>a b. snd b < snd a)
        (nlargest stable_argsort 1 [(''S1'', 150::real), (''S2'', 300)])
   \<and> nlargest stable_argsort 1 (nlargest stable_argsort 1 [(''S1'', 150::real), (''S2'', 300)])
       = nlargest stable_argsort 1 [(''S1'', 150), (''S2'', 300)]"
proof -
  have v: "nlargest stable_argsort 1 [(''S1'', 150::real), (''S2'', 300)] = [(''S2'', 300)]"
    by (simp add: nlargest_def)
  show ?thesis
    using nlargest_descending_totals
      [OF argsort_ok_stable, of 1 "[(''S1'', 150::real), (''S2'', 300)]"] v argsort_ok_stable
    by simp
qed

text \<open>
  With equal totals the order cannot be strictly descending: for four suppliers with a
  total of 100 each, the top-15 supplier series holds the four of them with totals
  100, 100, 100, 100.
\<close>

theorem nlargest_equal_totals_not_strict:
  "groupby_sum by_supplier four_suppliers_df
     = [(''S1'', 100), (''S2'', 100), (''S3'', 100), (''S4'', 100)]
   \<and> map snd (nlargest stable_argsort 15 (groupby_sum by_supplier four_suppliers_df))
     = [100, 100, 100, 100]
   \<and> \<not> sorted_wrt (\<lambda>a b. snd b < snd a)
         (nlargest stable_argsort 15 (groupby_sum by_supplier four_suppliers_df))"
proof -
  have g: "groupby_sum by_supplier four_suppliers_df
             = [(''S1'', 100), (''S2'', 100), (''S3'', 100), (''S4'', 100)]"
    by (simp add: groupby_sum_def group_keys_def group_rows_def unique_def by_supplier_def
        four_suppliers_df_def)
  have n: "nlargest stable_argsort 15 (groupby_sum by_supplier four_suppliers_df)
     = [(''S1'', 100), (''S2'', 100), (''S3'', 100), (''S4'', 100)]"
    by (simp add: g nlargest_def sort_values_desc_def nargsort_desc_def stable_argsort_def)
  have neg: "\<not> sorted_wrt (\<lambda>a b. snd b < snd a)
                     (nlargest stable_argsort 15 (groupby_sum by_supplier four_suppliers_df))"
    unfolding n by simp
  have t: "map snd (nlargest stable_argsort 15 (groupby_sum by_supplier four_suppliers_df))
     = [100, 100, 100, 100]"
    unfolding n by simp
  show ?thesis using g t neg by blast
qed

text \<open>
  The order of equal totals, and with it the result of a second application, depends on
  the sort when n is at least the length of the series.  Under a stable argsort the four
  suppliers stay in key order; under an argsort that puts the later of two equal values
  first, which \<open>argsort_ok\<close> also admits, they come out in reverse key order and a
  second application reverses them again.
\<close>

lemma nlargest_tie_order_follows_the_sort:
  "argsort_ok reversing_argsort
   \<and> nlargest stable_argsort 15
        [(''S1'', 100), (''S2'', 100), (''S3'', 100), (''S4'', 100)]
     = [(''S1'', 100), (''S2'', 100), (''S3'', 100), (''S4'', 100)]
   \<and> nlargest reversing_argsort 15
        [(''S1'', 100), (''S2'', 100), (''S3'', 100), (''S4'', 100)]
     = [(''S4'', 100), (''S3'', 100), (''S2'', 100), (''S1'', 100)]
   \<and> nlargest reversing_argsort 15
        [(''S4'', 100), (''S3'', 100), (''S2'', 100), (''S1'', 100)]
     = [(''S1'', 100), (''S2'', 100), (''S3'', 100), (''S4'', 100)]"
  by (simp add: argsort_ok_reversing)
     (simp add: nlargest_def sort_values_desc_def nargsort_desc_def stable_argsort_def
        reversing_argsort_def)

section \<open>Facts about the download\<close>

lemma numeric_fields_to_csv: "numeric_fields (to_csv frame) = map invoice_value frame"
  by (induction frame) (simp_all add: numeric_fields_def to_csv_def csv_row_def)

lemma dashboard_Inr:
  assumes "dashboard q df cs as = Inr rep"
  shows "csv rep = to_csv (filtered_df df cs as)"
    and "table_shown rep = detail_table q (filtered_df df cs as)"
  using assms by (auto simp: dashboard_def Let_def split: if_splits)

text \<open>
  C8, as the script has it.  When the dashboard is rendered, the downloaded CSV has a
  header line of the four renamed column names followed by one line per row of the
  filtered view, in the order of the view (the dataset's order); each line holds the three
  labels (the supplier empty when its cell is blank) and the amount as a numeric, unquoted
  field.  The sort by invoice value, descending, is applied to the table shown on
  screen, not to the download.
\<close>

theorem csv_export_in_view_order:
  assumes "dashboard q df cs as = Inr rep"
  shows "csv rep = map Text_Field column_names # map csv_row (filtered_df df cs as)
   \<and> length (csv rep) = 1 + length (filtered_df df cs as)
   \<and> (\<forall>i < length (filtered_df df cs as).
         csv rep ! (1 + i) =
           [Text_Field (category (filtered_df df cs as ! i)),
            Text_Field (area (filtered_df df cs as ! i)),
            Text_Field (case supplier (filtered_df df cs as ! i) of None \<Rightarrow> [] | Some s \<Rightarrow> s),
            Numeric_Field (invoice_value (filtered_df df cs as ! i))])
   \<and> numeric_fields (csv rep) = map invoice_value (filtered_df df cs as)
   \<and> table_shown rep = detail_table q (filtered_df df cs as)
   \<and> (argsort_ok q \<longrightarrow>
        sorted_wrt (\<lambda>a b. invoice_value b \<le> invoice_value a) (table_shown rep))"
proof -
  have c: "csv rep = to_csv (filtered_df df cs as)"
    and t: "table_shown rep = detail_table q (filtered_df df cs as)"
    using dashboard_Inr [OF assms] by simp_all
  show ?thesis
    by (simp add: c t numeric_fields_to_csv sorted_detail_table)
       (simp add: to_csv_def csv_header_def csv_row_def)
qed

theorem csv_export_in_view_order_witness:
  "argsort_ok stable_argsort
   \<and> (case dashboard stable_argsort example_df [''CatA'', ''CatB''] [''AreaX'', ''AreaY''] of
      Inl e \<Rightarrow> None
    | Inr rep \<Rightarrow> Some (csv rep))
   = Some [[Text_Field ''Expense Type (Category)'', Text_Field ''Expense Area (User/BU)'',
            Text_Field ''Supplier'', Text_Field ''Invoice Value (GBP)''],
           [Text_Field ''CatA'', Text_Field ''AreaX'', Text_Field ''S1'', Numeric_Field 100],
           [Text_Field ''CatA'', Text_Field ''AreaY'', Text_Field ''S2'', Numeric_Field 300],
           [Text_Field ''CatB'', Text_Field ''AreaX'', Text_Field ''S1'', Numeric_Field 50]]
   \<and> (case dashboard stable_argsort example_df [''CatA'', ''CatB''] [''AreaX'', ''AreaY''] of
      Inl e \<Rightarrow> False
    | Inr rep \<Rightarrow> sorted_wrt (\<lambda>a b. invoice_value b \<le> invoice_value a) (table_shown rep))"
proof -
  have f: "filtered_df example_df [''CatA'', ''CatB''] [''AreaX'', ''AreaY''] = example_df"
    by (simp add: filtered_df_filter example_df_def)
  have "example_df \<noteq> []" by (simp add: example_df_def)
  then obtain rep where
    d: "dashboard stable_argsort example_df [''CatA'', ''CatB''] [''AreaX'', ''AreaY''] = Inr rep"
    by (simp add: dashboard_def f Let_def)
  have all: "csv rep = map Text_Field column_names # map csv_row example_df
             \<and> sorted_wrt (\<lambda>a b. invoice_value b \<le> invoice_value a) (table_shown rep)"
    using csv_export_in_view_order [OF d] argsort_ok_stable unfolding f by blast
  then have "csv rep =
          [[Text_Field ''Expense Type (Category)'', Text_Field ''Expense Area (User/BU)'',
            Text_Field ''Supplier'', Text_Field ''Invoice Value (GBP)''],
           [Text_Field ''CatA'', Text_Field ''AreaX'', Text_Field ''S1'', Numeric_Field 100],
           [Text_Field ''CatA'', Text_Field ''AreaY'', Text_Field ''S2'', Numeric_Field 300],
           [Text_Field ''CatB'', Text_Field ''AreaX'', Text_Field ''S1'', Numeric_Field 50]]"
    by (simp add: column_names_def csv_row_def example_df_def)
  then show ?thesis using all argsort_ok_stable by (simp add: d)
qed

text \<open>
  On the example dataset the amounts of the download read 100, 300, 50, which is not a
  descending order, while the table on screen reads 300, 100, 50.
\<close>

theorem csv_export_not_sorted_by_value:
  "(case dashboard stable_argsort example_df [''CatA'', ''CatB''] [''AreaX'', ''AreaY''] of
      Inl e \<Rightarrow> None
    | Inr rep \<Rightarrow> Some (numeric_fields (csv rep), map invoice_value (table_shown rep)))
   = Some ([100, 300, 50], [300, 100, 50])
   \<and> \<not> sorted_wrt (\<lambda>a b. b \<le> a)
         (numeric_fields
            (to_csv (filtered_df example_df [''CatA'', ''CatB''] [''AreaX'', ''AreaY''])))"
proof -
  have f: "filtered_df example_df [''CatA'', ''CatB''] [''AreaX'', ''AreaY''] = example_df"
    by (simp add: filtered_df_filter example_df_def)
  have ne: "example_df \<noteq> []" by (simp add: example_df_def)
  have n: "numeric_fields (to_csv example_df) = [100, 300, 50]"
    by (simp add: numeric_fields_to_csv example_df_def)
  have t: "map invoice_value (detail_table stable_argsort example_df) = [300, 100, 50]"
    by (simp add: detail_table_def nargsort_desc_def stable_argsort_def example_df_def)
  have a: "(case dashboard stable_argsort example_df [''CatA'', ''CatB''] [''AreaX'', ''AreaY''] of
      Inl e \<Rightarrow> None
    | Inr rep \<Rightarrow> Some (numeric_fields (csv rep), map invoice_value (table_shown rep)))
   = Some ([100, 300, 50], [300, 100, 50])"
    using ne by (simp add: dashboard_def f Let_def n t)
  have b: "\<not> sorted_wrt (\<lambda>a b. b \<le> a)
         (numeric_fields
            (to_csv (filtered_df example_df [''CatA'', ''CatB''] [''AreaX'', ''AreaY''])))"
    unfolding f n by simp
  show ?thesis using a b by blast
qed

end
